theory Spec2Isabelle
  imports Main "HOL-Library.Char_ord"
begin

section \<open>Tokens\<close>

text \<open>
  The token vocabulary of \<^verbatim>\<open>lexer.cpp\<close> and \<^verbatim>\<open>parser.cpp\<close> (the two files declare the
  same \<^verbatim>\<open>enum class TokenType\<close> and \<^verbatim>\<open>struct Token\<close>). The field \<^verbatim>\<open>value\<close> of the
  struct is called \<open>value_tok\<close> here, \<open>value\<close> being a command of Isabelle.
\<close>

datatype TokenType =
    KEYWORD_INT
  | IDENTIFIER
  | INTEGER_LITERAL
  | OPERATOR_PLUS
  | OPERATOR_MINUS
  | OPERATOR_MULTIPLY
  | OPERATOR_DIVIDE
  | OPERATOR_ASSIGN
  | PUNCTUATION_SEMICOLON
  | END_OF_FILE
  | UNKNOWN

record Token =
  type :: TokenType
  value_tok :: string

section \<open>Character classes\<close>

text \<open>
  The \<^verbatim>\<open><cctype>\<close> predicates in the default "C" locale. A \<open>char\<close> is a byte; the bytes
  from 0x80 on belong to no class (for them the C standard leaves the call with a plain,
  signed \<^verbatim>\<open>char\<close> argument open; the usual C libraries answer 0).
\<close>

definition isdigit :: "char \<Rightarrow> bool" where
  "isdigit c \<longleftrightarrow> CHR ''0'' \<le> c \<and> c \<le> CHR ''9''"

definition isalpha :: "char \<Rightarrow> bool" where
  "isalpha c \<longleftrightarrow> (CHR ''a'' \<le> c \<and> c \<le> CHR ''z'') \<or> (CHR ''A'' \<le> c \<and> c \<le> CHR ''Z'')"

definition isalnum :: "char \<Rightarrow> bool" where
  "isalnum c \<longleftrightarrow> isalpha c \<or> isdigit c"

definition isspace :: "char \<Rightarrow> bool" where
  "isspace c \<longleftrightarrow> c = CHR '' '' \<or> (CHR 0x09 \<le> c \<and> c \<le> CHR 0x0D)"

section \<open>The lexer\<close>

text \<open>
  \<^verbatim>\<open>class Lexer\<close>: the source text and the cursor into it. The constructor sets the
  cursor to 0. Every member function that moves the cursor returns the new state. The
  cursor only grows while it is below the length of the text, so a \<open>nat\<close> stands for the
  \<^verbatim>\<open>size_t\<close>. The loops of \<^verbatim>\<open>skipWhitespace\<close>, \<^verbatim>\<open>readInteger\<close> and
  \<^verbatim>\<open>readIdentifierOrKeyword\<close> are recursive functions whose measure is the distance
  of the cursor from the end of the text.
\<close>

record Lexer =
  source_code :: string
  current_pos :: nat

definition new_Lexer :: "string \<Rightarrow> Lexer" where
  "new_Lexer source = \<lparr>source_code = source, current_pos = 0\<rparr>"

text \<open>
  \<^verbatim>\<open>std::string::substr(pos, n)\<close> on \<open>pos \<le> size()\<close>: the characters from \<open>pos\<close> on, at
  most \<open>n\<close> of them. Both calls in the lexer pass a start position that
  \<^verbatim>\<open>getNextToken\<close> has just checked to be below the length.
\<close>

definition substr :: "string \<Rightarrow> nat \<Rightarrow> nat \<Rightarrow> string" where
  "substr s pos n = take n (drop pos s)"

function skipWhitespace :: "Lexer \<Rightarrow> Lexer" where
  "skipWhitespace lx =
     (if current_pos lx < length (source_code lx) \<and> isspace (source_code lx ! current_pos lx)
      then skipWhitespace (lx\<lparr>current_pos := current_pos lx + 1\<rparr>)
      else lx)"
  by pat_completeness auto
termination
  by (relation "measure (\<lambda>lx. length (source_code lx) - current_pos lx)") auto

function readInteger_loop :: "Lexer \<Rightarrow> Lexer" where
  "readInteger_loop lx =
     (if current_pos lx < length (source_code lx) \<and> isdigit (source_code lx ! current_pos lx)
      then readInteger_loop (lx\<lparr>current_pos := current_pos lx + 1\<rparr>)
      else lx)"
  by pat_completeness auto
termination
  by (relation "measure (\<lambda>lx. length (source_code lx) - current_pos lx)") auto

definition readInteger :: "Lexer \<Rightarrow> Token \<times> Lexer" where
  "readInteger lx =
     (let start_pos = current_pos lx;
          lx' = readInteger_loop lx;
          val = substr (source_code lx') start_pos (current_pos lx' - start_pos)
      in (\<lparr>type = INTEGER_LITERAL, value_tok = val\<rparr>, lx'))"

function readIdentifierOrKeyword_loop :: "Lexer \<Rightarrow> Lexer" where
  "readIdentifierOrKeyword_loop lx =
     (if current_pos lx < length (source_code lx) \<and> isalnum (source_code lx ! current_pos lx)
      then readIdentifierOrKeyword_loop (lx\<lparr>current_pos := current_pos lx + 1\<rparr>)
      else lx)"
  by pat_completeness auto
termination
  by (relation "measure (\<lambda>lx. length (source_code lx) - current_pos lx)") auto

definition readIdentifierOrKeyword :: "Lexer \<Rightarrow> Token \<times> Lexer" where
  "readIdentifierOrKeyword lx =
     (let start_pos = current_pos lx;
          lx' = readIdentifierOrKeyword_loop lx;
          val = substr (source_code lx') start_pos (current_pos lx' - start_pos)
      in if val = ''int'' then (\<lparr>type = KEYWORD_INT, value_tok = val\<rparr>, lx')
         else (\<lparr>type = IDENTIFIER, value_tok = val\<rparr>, lx'))"

definition getNextToken :: "Lexer \<Rightarrow> Token \<times> Lexer" where
  "getNextToken lx0 =
     (let lx = skipWhitespace lx0 in
      if current_pos lx \<ge> length (source_code lx)
      then (\<lparr>type = END_OF_FILE, value_tok = ''''\<rparr>, lx)
      else
        let current_char = source_code lx ! current_pos lx;
            lx1 = lx\<lparr>current_pos := current_pos lx + 1\<rparr>
        in if current_char = CHR ''+'' then (\<lparr>type = OPERATOR_PLUS, value_tok = ''+''\<rparr>, lx1)
           else if current_char = CHR ''-'' then (\<lparr>type = OPERATOR_MINUS, value_tok = ''-''\<rparr>, lx1)
           else if current_char = CHR ''*'' then (\<lparr>type = OPERATOR_MULTIPLY, value_tok = ''*''\<rparr>, lx1)
           else if current_char = CHR ''/'' then (\<lparr>type = OPERATOR_DIVIDE, value_tok = ''/''\<rparr>, lx1)
           else if current_char = CHR ''='' then (\<lparr>type = OPERATOR_ASSIGN, value_tok = ''=''\<rparr>, lx1)
           else if current_char = CHR '';'' then (\<lparr>type = PUNCTUATION_SEMICOLON, value_tok = '';''\<rparr>, lx1)
           else if isdigit current_char then readInteger lx
           else if isalpha current_char then readIdentifierOrKeyword lx
           else (\<lparr>type = UNKNOWN, value_tok = [current_char]\<rparr>, lx1))"

declare skipWhitespace.simps [simp del]
declare readInteger_loop.simps [simp del]
declare readIdentifierOrKeyword_loop.simps [simp del]

section \<open>The lexer on the text that is left\<close>

lemma take_length_takeWhile: "take (length (takeWhile P xs)) xs = takeWhile P xs"
  by (induction xs) auto

lemma drop_length_takeWhile: "drop (length (takeWhile P xs)) xs = dropWhile P xs"
  by (induction xs) auto

lemma takeWhile_drop_step:
  "i < length s \<Longrightarrow> P (s ! i) \<Longrightarrow>
   length (takeWhile P (drop i s)) = Suc (length (takeWhile P (drop (Suc i) s)))"
  by (simp add: Cons_nth_drop_Suc [symmetric])

lemma takeWhile_drop_stop:
  "\<not> (i < length s \<and> P (s ! i)) \<Longrightarrow> takeWhile P (drop i s) = []"
  by (cases "i < length s") (simp_all add: Cons_nth_drop_Suc [symmetric])

lemma skipWhitespace_eq:
  "skipWhitespace lx =
   lx\<lparr>current_pos := current_pos lx + length (takeWhile isspace (drop (current_pos lx) (source_code lx)))\<rparr>"
proof (induction lx rule: skipWhitespace.induct)
  case (1 lx)
  show ?case
  proof (cases "current_pos lx < length (source_code lx) \<and> isspace (source_code lx ! current_pos lx)")
    case True
    then show ?thesis
      using "1.IH" by (subst skipWhitespace.simps) (simp add: takeWhile_drop_step)
  next
    case False
    then show ?thesis
      by (subst skipWhitespace.simps) (auto simp: takeWhile_drop_stop)
  qed
qed

lemma readInteger_loop_eq:
  "readInteger_loop lx =
   lx\<lparr>current_pos := current_pos lx + length (takeWhile isdigit (drop (current_pos lx) (source_code lx)))\<rparr>"
proof (induction lx rule: readInteger_loop.induct)
  case (1 lx)
  show ?case
  proof (cases "current_pos lx < length (source_code lx) \<and> isdigit (source_code lx ! current_pos lx)")
    case True
    then show ?thesis
      using "1.IH" by (subst readInteger_loop.simps) (simp add: takeWhile_drop_step)
  next
    case False
    then show ?thesis
      by (subst readInteger_loop.simps) (auto simp: takeWhile_drop_stop)
  qed
qed

lemma readIdentifierOrKeyword_loop_eq:
  "readIdentifierOrKeyword_loop lx =
   lx\<lparr>current_pos := current_pos lx + length (takeWhile isalnum (drop (current_pos lx) (source_code lx)))\<rparr>"
proof (induction lx rule: readIdentifierOrKeyword_loop.induct)
  case (1 lx)
  show ?case
  proof (cases "current_pos lx < length (source_code lx) \<and> isalnum (source_code lx ! current_pos lx)")
    case True
    then show ?thesis
      using "1.IH" by (subst readIdentifierOrKeyword_loop.simps) (simp add: takeWhile_drop_step)
  next
    case False
    then show ?thesis
      by (subst readIdentifierOrKeyword_loop.simps) (auto simp: takeWhile_drop_stop)
  qed
qed


lemma drop_add_takeWhile:
  "drop (i + length (takeWhile P (drop i s))) s = dropWhile P (drop i s)"
  by (metis add.commute drop_drop drop_length_takeWhile)

lemma readInteger_eq:
  "readInteger lx =
     (\<lparr>type = INTEGER_LITERAL,
       value_tok = takeWhile isdigit (drop (current_pos lx) (source_code lx))\<rparr>,
      lx\<lparr>current_pos := current_pos lx
          + length (takeWhile isdigit (drop (current_pos lx) (source_code lx)))\<rparr>)"
  by (simp add: readInteger_def readInteger_loop_eq substr_def take_length_takeWhile Let_def)

lemma readIdentifierOrKeyword_eq:
  "readIdentifierOrKeyword lx =
     (\<lparr>type = (if takeWhile isalnum (drop (current_pos lx) (source_code lx)) = ''int''
               then KEYWORD_INT else IDENTIFIER),
       value_tok = takeWhile isalnum (drop (current_pos lx) (source_code lx))\<rparr>,
      lx\<lparr>current_pos := current_pos lx
          + length (takeWhile isalnum (drop (current_pos lx) (source_code lx)))\<rparr>)"
proof -
  define tw where "tw = takeWhile isalnum (drop (current_pos lx) (source_code lx))"
  have v: "substr (source_code (lx\<lparr>current_pos := current_pos lx + length tw\<rparr>)) (current_pos lx)
             (current_pos (lx\<lparr>current_pos := current_pos lx + length tw\<rparr>) - current_pos lx) = tw"
    by (simp add: substr_def take_length_takeWhile tw_def)
  have "readIdentifierOrKeyword lx =
      (if tw = ''int''
       then (\<lparr>type = KEYWORD_INT, value_tok = tw\<rparr>, lx\<lparr>current_pos := current_pos lx + length tw\<rparr>)
       else (\<lparr>type = IDENTIFIER, value_tok = tw\<rparr>, lx\<lparr>current_pos := current_pos lx + length tw\<rparr>))"
    unfolding readIdentifierOrKeyword_def readIdentifierOrKeyword_loop_eq Let_def tw_def [symmetric] v
    by (rule refl)
  then show ?thesis
    unfolding tw_def by simp
qed

text \<open>
  A second view of \<open>getNextToken\<close>, used in the proofs only: the same step as a function
  of the text from the cursor on, returning the token and the text after it. It is not
  taken from the source; \<open>getNextToken_scan\<close> shows that the lexer computes it.
\<close>

definition scan_token :: "string \<Rightarrow> Token \<times> string" where
  "scan_token rest =
     (case dropWhile isspace rest of
        [] \<Rightarrow> (\<lparr>type = END_OF_FILE, value_tok = ''''\<rparr>, [])
      | c # r \<Rightarrow>
          if c = CHR ''+'' then (\<lparr>type = OPERATOR_PLUS, value_tok = ''+''\<rparr>, r)
          else if c = CHR ''-'' then (\<lparr>type = OPERATOR_MINUS, value_tok = ''-''\<rparr>, r)
          else if c = CHR ''*'' then (\<lparr>type = OPERATOR_MULTIPLY, value_tok = ''*''\<rparr>, r)
          else if c = CHR ''/'' then (\<lparr>type = OPERATOR_DIVIDE, value_tok = ''/''\<rparr>, r)
          else if c = CHR ''='' then (\<lparr>type = OPERATOR_ASSIGN, value_tok = ''=''\<rparr>, r)
          else if c = CHR '';'' then (\<lparr>type = PUNCTUATION_SEMICOLON, value_tok = '';''\<rparr>, r)
          else if isdigit c
            then (\<lparr>type = INTEGER_LITERAL, value_tok = takeWhile isdigit (c # r)\<rparr>,
                  dropWhile isdigit (c # r))
          else if isalpha c
            then (\<lparr>type = (if takeWhile isalnum (c # r) = ''int'' then KEYWORD_INT else IDENTIFIER),
                    value_tok = takeWhile isalnum (c # r)\<rparr>,
                  dropWhile isalnum (c # r))
          else (\<lparr>type = UNKNOWN, value_tok = [c]\<rparr>, r))"

lemma getNextToken_scan:
  fixes lx :: Lexer
  defines "src \<equiv> source_code lx"
  defines "rest \<equiv> drop (current_pos lx) src"
  shows "fst (getNextToken lx) = fst (scan_token rest)"
    and "source_code (snd (getNextToken lx)) = src"
    and "drop (current_pos (snd (getNextToken lx))) src = snd (scan_token rest)"
proof -
  define p where "p = current_pos lx + length (takeWhile isspace rest)"
  define r where "r = dropWhile isspace rest"
  have sk: "skipWhitespace lx = lx\<lparr>current_pos := p\<rparr>"
    by (simp add: skipWhitespace_eq p_def rest_def src_def)
  have dr: "drop p src = r"
    by (simp add: p_def r_def rest_def drop_add_takeWhile)
  have "fst (getNextToken lx) = fst (scan_token rest)
    \<and> source_code (snd (getNextToken lx)) = src
    \<and> drop (current_pos (snd (getNextToken lx))) src = snd (scan_token rest)"
  proof (cases r)
    case Nil
    then have "length src \<le> p" using dr by simp
    then have "getNextToken lx = (\<lparr>type = END_OF_FILE, value_tok = ''''\<rparr>, lx\<lparr>current_pos := p\<rparr>)"
      by (simp add: getNextToken_def sk src_def)
    moreover have "scan_token rest = (\<lparr>type = END_OF_FILE, value_tok = ''''\<rparr>, [])"
      unfolding scan_token_def r_def [symmetric] Nil by simp
    ultimately show ?thesis
      using dr Nil by (simp add: src_def)
  next
    case (Cons c r')
    then have lt: "p < length (source_code lx)"
      using dr by (cases "p < length src") (auto simp: src_def)
    then have c: "source_code lx ! p = c" and dr': "drop (Suc p) src = r'"
      using dr Cons by (simp_all add: src_def flip: Cons_nth_drop_Suc)
    have tk: "take (length (takeWhile P r)) (drop p (source_code lx)) = takeWhile P r"
         "drop (p + length (takeWhile P r)) src = dropWhile P r" for P
      using drop_add_takeWhile [of p P src] dr by (simp_all add: take_length_takeWhile src_def)
    have g: "getNextToken lx = 
       (if c = CHR ''+'' then (\<lparr>type = OPERATOR_PLUS, value_tok = ''+''\<rparr>, lx\<lparr>current_pos := Suc p\<rparr>)
        else if c = CHR ''-'' then (\<lparr>type = OPERATOR_MINUS, value_tok = ''-''\<rparr>, lx\<lparr>current_pos := Suc p\<rparr>)
        else if c = CHR ''*'' then (\<lparr>type = OPERATOR_MULTIPLY, value_tok = ''*''\<rparr>, lx\<lparr>current_pos := Suc p\<rparr>)
        else if c = CHR ''/'' then (\<lparr>type = OPERATOR_DIVIDE, value_tok = ''/''\<rparr>, lx\<lparr>current_pos := Suc p\<rparr>)
        else if c = CHR ''='' then (\<lparr>type = OPERATOR_ASSIGN, value_tok = ''=''\<rparr>, lx\<lparr>current_pos := Suc p\<rparr>)
        else if c = CHR '';'' then (\<lparr>type = PUNCTUATION_SEMICOLON, value_tok = '';''\<rparr>, lx\<lparr>current_pos := Suc p\<rparr>)
        else if isdigit c
          then (\<lparr>type = INTEGER_LITERAL, value_tok = takeWhile isdigit r\<rparr>,
                lx\<lparr>current_pos := p + length (takeWhile isdigit r)\<rparr>)
        else if isalpha c
          then (\<lparr>type = (if takeWhile isalnum r = ''int'' then KEYWORD_INT else IDENTIFIER),
                  value_tok = takeWhile isalnum r\<rparr>,
                lx\<lparr>current_pos := p + length (takeWhile isalnum r)\<rparr>)
        else (\<lparr>type = UNKNOWN, value_tok = [c]\<rparr>, lx\<lparr>current_pos := Suc p\<rparr>))"
      using lt c
      by (simp add: getNextToken_def sk Let_def readInteger_eq readIdentifierOrKeyword_eq
            dr [unfolded src_def])
    have s: "scan_token rest = 
       (if c = CHR ''+'' then (\<lparr>type = OPERATOR_PLUS, value_tok = ''+''\<rparr>, r')
        else if c = CHR ''-'' then (\<lparr>type = OPERATOR_MINUS, value_tok = ''-''\<rparr>, r')
        else if c = CHR ''*'' then (\<lparr>type = OPERATOR_MULTIPLY, value_tok = ''*''\<rparr>, r')
        else if c = CHR ''/'' then (\<lparr>type = OPERATOR_DIVIDE, value_tok = ''/''\<rparr>, r')
        else if c = CHR ''='' then (\<lparr>type = OPERATOR_ASSIGN, value_tok = ''=''\<rparr>, r')
        else if c = CHR '';'' then (\<lparr>type = PUNCTUATION_SEMICOLON, value_tok = '';''\<rparr>, r')
        else if isdigit c
          then (\<lparr>type = INTEGER_LITERAL, value_tok = takeWhile isdigit r\<rparr>, dropWhile isdigit r)
        else if isalpha c
          then (\<lparr>type = (if takeWhile isalnum r = ''int'' then KEYWORD_INT else IDENTIFIER),
                  value_tok = takeWhile isalnum r\<rparr>,
                dropWhile isalnum r)
        else (\<lparr>type = UNKNOWN, value_tok = [c]\<rparr>, r'))"
      unfolding scan_token_def r_def [symmetric] Cons by simp
    show ?thesis
      unfolding g s using dr' tk(2) by (simp add: src_def)
  qed
  then show "fst (getNextToken lx) = fst (scan_token rest)"
    and "source_code (snd (getNextToken lx)) = src"
    and "drop (current_pos (snd (getNextToken lx))) src = snd (scan_token rest)"
    by simp_all
qed

lemma isdigit_not_isspace: "isdigit c \<Longrightarrow> \<not> isspace c"
  by (auto simp: isdigit_def isspace_def less_eq_char_def)

lemma isalpha_not_isspace: "isalpha c \<Longrightarrow> \<not> isspace c"
  by (auto simp: isalpha_def isspace_def less_eq_char_def)

lemma isalnum_not_isspace: "isalnum c \<Longrightarrow> \<not> isspace c"
  by (auto simp: isalnum_def isdigit_not_isspace isalpha_not_isspace)

lemma filter_takeWhile_id: "(\<And>c. P c \<Longrightarrow> Q c) \<Longrightarrow> filter Q (takeWhile P xs) = takeWhile P xs"
  by (induction xs) auto

lemma filter_not_dropWhile: "filter (\<lambda>c. \<not> P c) (dropWhile P xs) = filter (\<lambda>c. \<not> P c) xs"
  by (induction xs) auto

lemma scan_token_ws_Nil:
  assumes "dropWhile isspace rest = []"
  shows "scan_token rest = (\<lparr>type = END_OF_FILE, value_tok = []\<rparr>, [])"
  unfolding scan_token_def assms by simp

lemma scan_token_ws_Cons:
  assumes "dropWhile isspace rest = c # r"
  shows "scan_token rest =
       (if c = CHR ''+'' then (\<lparr>type = OPERATOR_PLUS, value_tok = ''+''\<rparr>, r)
        else if c = CHR ''-'' then (\<lparr>type = OPERATOR_MINUS, value_tok = ''-''\<rparr>, r)
        else if c = CHR ''*'' then (\<lparr>type = OPERATOR_MULTIPLY, value_tok = ''*''\<rparr>, r)
        else if c = CHR ''/'' then (\<lparr>type = OPERATOR_DIVIDE, value_tok = ''/''\<rparr>, r)
        else if c = CHR ''='' then (\<lparr>type = OPERATOR_ASSIGN, value_tok = ''=''\<rparr>, r)
        else if c = CHR '';'' then (\<lparr>type = PUNCTUATION_SEMICOLON, value_tok = '';''\<rparr>, r)
        else if isdigit c
          then (\<lparr>type = INTEGER_LITERAL, value_tok = takeWhile isdigit (c # r)\<rparr>,
                dropWhile isdigit (c # r))
        else if isalpha c
          then (\<lparr>type = (if takeWhile isalnum (c # r) = ''int'' then KEYWORD_INT else IDENTIFIER),
                  value_tok = takeWhile isalnum (c # r)\<rparr>,
                dropWhile isalnum (c # r))
        else (\<lparr>type = UNKNOWN, value_tok = [c]\<rparr>, r))"
  unfolding scan_token_def assms by simp

lemma scan_token_progress:
  "type (fst (scan_token rest)) \<noteq> END_OF_FILE \<Longrightarrow> length (snd (scan_token rest)) < length rest"
proof -
  assume a: "type (fst (scan_token rest)) \<noteq> END_OF_FILE"
  have l1: "length (dropWhile isspace rest) \<le> length rest"
    by (rule length_dropWhile_le)
  show ?thesis
  proof (cases "dropWhile isspace rest")
    case Nil
    with a show ?thesis by (simp add: scan_token_ws_Nil)
  next
    case (Cons c r)
    have "length (dropWhile P r) \<le> length r" for P
      by (rule length_dropWhile_le)
    then have "length (snd (scan_token rest)) \<le> length r"
      by (simp add: scan_token_ws_Cons [OF Cons] isalnum_def)
    with l1 Cons show ?thesis by simp
  qed
qed

lemma scan_token_eof:
  assumes "type (fst (scan_token rest)) = END_OF_FILE"
  shows "scan_token rest = (\<lparr>type = END_OF_FILE, value_tok = ''''\<rparr>, [])"
proof (cases "dropWhile isspace rest")
  case Nil
  then show ?thesis by (rule scan_token_ws_Nil)
next
  case (Cons c r)
  with assms show ?thesis by (simp add: scan_token_ws_Cons [OF Cons] split: if_splits)
qed

lemma scan_token_Nil: "scan_token [] = (\<lparr>type = END_OF_FILE, value_tok = ''''\<rparr>, [])"
  by (simp add: scan_token_def)

lemma scan_token_lexeme:
  "value_tok (fst (scan_token rest)) @ filter (\<lambda>c. \<not> isspace c) (snd (scan_token rest))
     = filter (\<lambda>c. \<not> isspace c) rest"
proof (cases "dropWhile isspace rest")
  case Nil
  then have "filter (\<lambda>c. \<not> isspace c) rest = []"
    by (metis filter.simps(1) filter_not_dropWhile)
  then show ?thesis by (simp add: scan_token_ws_Nil [OF Nil])
next
  case (Cons c r)
  then have nsp: "\<not> isspace c"
    by (metis hd_dropWhile list.sel(1) list.distinct(1))
  have f: "filter (\<lambda>c. \<not> isspace c) rest = c # filter (\<lambda>c. \<not> isspace c) r"
    using filter_not_dropWhile [of isspace rest] nsp by (simp add: Cons)
  have run: "takeWhile P (c # r) @ filter (\<lambda>c. \<not> isspace c) (dropWhile P (c # r))
      = c # filter (\<lambda>c. \<not> isspace c) r" if "\<And>c. P c \<Longrightarrow> \<not> isspace c" for P
  proof -
    have "filter (\<lambda>c. \<not> isspace c) (takeWhile P (c # r) @ dropWhile P (c # r))
       = takeWhile P (c # r) @ filter (\<lambda>c. \<not> isspace c) (dropWhile P (c # r))"
      unfolding filter_append using filter_takeWhile_id [of P "\<lambda>c. \<not> isspace c"] that by simp
    then show ?thesis using nsp by (simp only: takeWhile_dropWhile_id) simp
  qed
  show ?thesis
    unfolding f using run [of isdigit] run [of isalnum] 
    by (simp add: scan_token_ws_Cons [OF Cons] isdigit_not_isspace isalnum_not_isspace
          del: takeWhile.simps dropWhile.simps)
qed

lemma getNextToken_source [simp]: "source_code (snd (getNextToken lx)) = source_code lx"
  by (rule getNextToken_scan(2))

lemma getNextToken_progress:
  assumes "type (fst (getNextToken lx)) \<noteq> END_OF_FILE"
  shows "length (source_code lx) - current_pos (snd (getNextToken lx))
           < length (source_code lx) - current_pos lx"
proof -
  have "length (snd (scan_token (drop (current_pos lx) (source_code lx))))
          < length (drop (current_pos lx) (source_code lx))"
    using assms by (intro scan_token_progress) (simp add: getNextToken_scan(1))
  then have "length (drop (current_pos (snd (getNextToken lx))) (source_code lx))
          < length (drop (current_pos lx) (source_code lx))"
    by (simp only: getNextToken_scan(3))
  then show ?thesis by simp
qed

lemma getNextToken_eof:
  assumes "type (fst (getNextToken lx)) = END_OF_FILE"
  shows "fst (getNextToken lx) = \<lparr>type = END_OF_FILE, value_tok = ''''\<rparr>"
    and "type (fst (getNextToken (snd (getNextToken lx)))) = END_OF_FILE"
proof -
  let ?rest = "drop (current_pos lx) (source_code lx)"
  have s: "scan_token ?rest = (\<lparr>type = END_OF_FILE, value_tok = ''''\<rparr>, [])"
    using assms by (intro scan_token_eof) (simp add: getNextToken_scan(1))
  then show "fst (getNextToken lx) = \<lparr>type = END_OF_FILE, value_tok = ''''\<rparr>"
    by (simp add: getNextToken_scan(1))
  have "drop (current_pos (snd (getNextToken lx))) (source_code lx) = []"
    using s by (simp only: getNextToken_scan(3)) simp
  then have "fst (getNextToken (snd (getNextToken lx))) = fst (scan_token [])"
    using getNextToken_scan(1) [of "snd (getNextToken lx)"] by simp
  then show "type (fst (getNextToken (snd (getNextToken lx)))) = END_OF_FILE"
    by (simp add: scan_token_Nil)
qed

lemma getNextToken_lexeme:
  "value_tok (fst (getNextToken lx))
     @ filter (\<lambda>c. \<not> isspace c) (drop (current_pos (snd (getNextToken lx))) (source_code lx))
   = filter (\<lambda>c. \<not> isspace c) (drop (current_pos lx) (source_code lx))"
  by (simp only: getNextToken_scan(1,3) scan_token_lexeme)

lemma getNextToken_decreases:
  assumes "(token, lexer') = getNextToken lexer" and "type token \<noteq> END_OF_FILE"
  shows "length (source_code lexer') - current_pos lexer'
           < length (source_code lexer) - current_pos lexer"
proof -
  have "token = fst (getNextToken lexer)" and l: "lexer' = snd (getNextToken lexer)"
    using assms(1) by (metis fst_conv, metis snd_conv)
  then have "type (fst (getNextToken lexer)) \<noteq> END_OF_FILE"
    using assms(2) by simp
  then show ?thesis
    using getNextToken_progress [of lexer] by (simp add: l)
qed

subsection \<open>Repeated calls\<close>

text \<open>
  \<open>lexer_after n lexer\<close> is the lexer after \<open>n\<close> calls of \<open>getNextToken\<close>, and
  \<open>nth_token lexer n\<close> the token that call number \<open>n\<close> (counted from 0) returns.

  \<open>tokenize_loop\<close> is the do-while loop of \<^verbatim>\<open>main\<close> (in both files): call
  \<open>getNextToken\<close>, append the token (\<^verbatim>\<open>push_back\<close>), and go on while the token is not the
  end-of-file token. Its termination is proved from the progress of \<open>getNextToken\<close>, so
  the loop ends on every source string. \<open>tokenize\<close> runs it from a fresh lexer and an
  empty vector.
\<close>

fun lexer_after :: "nat \<Rightarrow> Lexer \<Rightarrow> Lexer" where
  "lexer_after 0 lexer = lexer"
| "lexer_after (Suc n) lexer = lexer_after n (snd (getNextToken lexer))"

definition nth_token :: "Lexer \<Rightarrow> nat \<Rightarrow> Token" where
  "nth_token lexer n = fst (getNextToken (lexer_after n lexer))"

function tokenize_loop :: "Lexer \<Rightarrow> Token list \<Rightarrow> Token list" where
  "tokenize_loop lexer tokens =
     (case getNextToken lexer of
        (token, lexer') \<Rightarrow>
          let tokens' = tokens @ [token]
          in if type token \<noteq> END_OF_FILE then tokenize_loop lexer' tokens' else tokens')"
  by pat_completeness auto
termination
  by (relation "measure (\<lambda>(lexer, tokens). length (source_code lexer) - current_pos lexer)")
     (auto intro: getNextToken_decreases)

declare tokenize_loop.simps [simp del]

definition tokenize :: "string \<Rightarrow> Token list" where
  "tokenize code = tokenize_loop (new_Lexer code) []"

section \<open>The parser\<close>

text \<open>
  The three node structs of \<^verbatim>\<open>parser.cpp\<close>. A child is a \<^verbatim>\<open>std::unique_ptr<AstNode>\<close>,
  which may be null, hence an \<open>option\<close>: \<open>parseExpression\<close> does build a binary operation
  with a null left child when the first operand is missing and an operator follows.
\<close>

datatype AstNode =
    NumberNode Token
  | BinaryOpNode "AstNode option" Token "AstNode option"
  | VarDeclNode Token Token "AstNode option"

text \<open>
  \<^verbatim>\<open>class Parser\<close>: the token vector and the cursor, 0 after construction. The cursor
  never exceeds the length of the vector, so a \<open>nat\<close> stands for the \<^verbatim>\<open>size_t\<close>.

  \<open>peek\<close> is \<^verbatim>\<open>tokens[current_token_idx]\<close>, unchecked in the source: with the cursor at
  or beyond the length the behaviour of the C++ program is undefined. The model gives
  that read the value \<open>Inl IndexOutOfBounds\<close>, and every function that peeks hands an
  \<open>Inl\<close> on to its caller. A parsing function that returns the null pointer returns
  \<open>Inr (None, p)\<close>; one that returns a node returns \<open>Inr (Some node, p)\<close>; \<open>p\<close> is the
  parser afterwards. The diagnostics written to \<^verbatim>\<open>std::cerr\<close> are left out.
\<close>

record Parser =
  tokens :: "Token list"
  current_token_idx :: nat

definition new_Parser :: "Token list \<Rightarrow> Parser" where
  "new_Parser ts = \<lparr>tokens = ts, current_token_idx = 0\<rparr>"

datatype error = IndexOutOfBounds

type_synonym 'a result = "error + ('a \<times> Parser)"

definition peek :: "Parser \<Rightarrow> error + Token" where
  "peek p = (if current_token_idx p < length (tokens p)
             then Inr (tokens p ! current_token_idx p)
             else Inl IndexOutOfBounds)"

definition advance :: "Parser \<Rightarrow> Parser" where
  "advance p = (if current_token_idx p < length (tokens p)
                then p\<lparr>current_token_idx := current_token_idx p + 1\<rparr>
                else p)"

definition parseTerm :: "Parser \<Rightarrow> (AstNode option) result" where
  "parseTerm p =
     (case peek p of
        Inl e \<Rightarrow> Inl e
      | Inr token \<Rightarrow>
          if type token = INTEGER_LITERAL
          then Inr (Some (NumberNode token), advance p)
          else Inr (None, p))"

text \<open>
  The while loop of \<^verbatim>\<open>parseExpression\<close>, with the node built so far as an argument. The
  loop condition and \<^verbatim>\<open>Token op = peek()\<close> read the sequence at the same cursor, so one
  \<open>peek\<close> stands for them (as one does for the test and the copy of the identifier in
  \<open>parseVariableDeclaration\<close>, and for the test in \<open>parseStatement\<close> and the first read
  of \<open>parseVariableDeclaration\<close>). The recursion ends because every round moves the
  cursor towards the length of the sequence.
\<close>

function parseExpression_loop :: "AstNode option \<Rightarrow> Parser \<Rightarrow> (AstNode option) result" where
  "parseExpression_loop left p =
     (case peek p of
        Inl e \<Rightarrow> Inl e
      | Inr op \<Rightarrow>
          if type op = OPERATOR_PLUS \<or> type op = OPERATOR_MINUS
          then (case parseTerm (advance p) of
                  Inl e \<Rightarrow> Inl e
                | Inr (right, p') \<Rightarrow>
                    if right = None then Inr (None, p')
                    else parseExpression_loop (Some (BinaryOpNode left op right)) p')
          else Inr (left, p))"
  by pat_completeness auto
termination
  by (relation "measure (\<lambda>(left, p). length (tokens p) - current_token_idx p)")
     (auto simp: peek_def advance_def parseTerm_def split: if_splits)

declare parseExpression_loop.simps [simp del]

definition parseExpression :: "Parser \<Rightarrow> (AstNode option) result" where
  "parseExpression p =
     (case parseTerm p of
        Inl e \<Rightarrow> Inl e
      | Inr (left, p') \<Rightarrow> parseExpression_loop left p')"

definition parseVariableDeclaration :: "Parser \<Rightarrow> (AstNode option) result" where
  "parseVariableDeclaration p =
     (case peek p of
        Inl e \<Rightarrow> Inl e
      | Inr ty \<Rightarrow>
          let p1 = advance p in
          case peek p1 of
            Inl e \<Rightarrow> Inl e
          | Inr identifier \<Rightarrow>
              if type identifier \<noteq> IDENTIFIER then Inr (None, p1)
              else
                let p2 = advance p1 in
                case peek p2 of
                  Inl e \<Rightarrow> Inl e
                | Inr eq \<Rightarrow>
                    if type eq \<noteq> OPERATOR_ASSIGN then Inr (None, p2)
                    else
                      case parseExpression (advance p2) of
                        Inl e \<Rightarrow> Inl e
                      | Inr (expression, p3) \<Rightarrow>
                          if expression = None then Inr (None, p3)
                          else
                            case peek p3 of
                              Inl e \<Rightarrow> Inl e
                            | Inr semi \<Rightarrow>
                                if type semi \<noteq> PUNCTUATION_SEMICOLON then Inr (None, p3)
                                else Inr (Some (VarDeclNode ty identifier expression), advance p3))"

definition parseStatement :: "Parser \<Rightarrow> (AstNode option) result" where
  "parseStatement p =
     (case peek p of
        Inl e \<Rightarrow> Inl e
      | Inr t \<Rightarrow>
          if type t = KEYWORD_INT then parseVariableDeclaration p
          else Inr (None, p))"

definition parse :: "Parser \<Rightarrow> (AstNode option) result" where
  "parse p = parseStatement p"

text \<open>
  The caller's side, as \<^verbatim>\<open>main\<close> of \<^verbatim>\<open>parser.cpp\<close> does it: build a parser over a token
  sequence and call \<^verbatim>\<open>parse()\<close> once; \<open>front_end\<close> first collects the tokens of a
  source string with the do-while loop.
\<close>

definition parse_tokens :: "Token list \<Rightarrow> error + AstNode option" where
  "parse_tokens ts =
     (case parse (new_Parser ts) of
        Inl e \<Rightarrow> Inl e
      | Inr (ast_root, p) \<Rightarrow> Inr ast_root)"

definition front_end :: "string \<Rightarrow> error + AstNode option" where
  "front_end code = parse_tokens (tokenize code)"

text \<open>
  The invariant of the syntax tree in the words of the specification: the operator token
  of a binary operation is a plus or a minus, the tokens of a declaration are the keyword
  and an identifier, the token of a literal is an integer literal; at every node.
\<close>

fun well_kinded :: "AstNode \<Rightarrow> bool" where
  "well_kinded (NumberNode t) \<longleftrightarrow> type t = INTEGER_LITERAL"
| "well_kinded (BinaryOpNode l op r) \<longleftrightarrow>
     (type op = OPERATOR_PLUS \<or> type op = OPERATOR_MINUS)
     \<and> (case l of None \<Rightarrow> True | Some n \<Rightarrow> well_kinded n)
     \<and> (case r of None \<Rightarrow> True | Some n \<Rightarrow> well_kinded n)"
| "well_kinded (VarDeclNode ty ident e) \<longleftrightarrow>
     type ty = KEYWORD_INT \<and> type ident = IDENTIFIER
     \<and> (case e of None \<Rightarrow> True | Some n \<Rightarrow> well_kinded n)"

section \<open>Worked inputs\<close>

text \<open>
  C1. For the source string \<open>int result = 10 + 20;\<close> the tokenizer run to the end-of-file
  token followed by \<open>parse\<close> returns a variable declaration whose identifier lexeme is
  \<open>result\<close> and whose initializer is a binary operation with operator lexeme \<open>+\<close>, left
  child the number literal \<open>10\<close> and right child the number literal \<open>20\<close>.
\<close>

theorem grammar_acceptance:
  "front_end ''int result = 10 + 20;'' =
     Inr (Some (VarDeclNode
       \<lparr>type = KEYWORD_INT, value_tok = ''int''\<rparr>
       \<lparr>type = IDENTIFIER, value_tok = ''result''\<rparr>
       (Some (BinaryOpNode
          (Some (NumberNode \<lparr>type = INTEGER_LITERAL, value_tok = ''10''\<rparr>))
          \<lparr>type = OPERATOR_PLUS, value_tok = ''+''\<rparr>
          (Some (NumberNode \<lparr>type = INTEGER_LITERAL, value_tok = ''20''\<rparr>))))))"
  by code_simp

text \<open>
  C2. For the source string \<open>int x = 1 + 2 - 3;\<close> the initializer's outermost node is the
  binary operation \<open>-\<close>; its left child is the binary operation \<open>+\<close> over the literals
  \<open>1\<close> and \<open>2\<close>, its right child is the literal \<open>3\<close>: the fold is left-associative.
\<close>

theorem left_associativity:
  "front_end ''int x = 1 + 2 - 3;'' =
     Inr (Some (VarDeclNode
       \<lparr>type = KEYWORD_INT, value_tok = ''int''\<rparr>
       \<lparr>type = IDENTIFIER, value_tok = ''x''\<rparr>
       (Some (BinaryOpNode
          (Some (BinaryOpNode
             (Some (NumberNode \<lparr>type = INTEGER_LITERAL, value_tok = ''1''\<rparr>))
             \<lparr>type = OPERATOR_PLUS, value_tok = ''+''\<rparr>
             (Some (NumberNode \<lparr>type = INTEGER_LITERAL, value_tok = ''2''\<rparr>))))
          \<lparr>type = OPERATOR_MINUS, value_tok = ''-''\<rparr>
          (Some (NumberNode \<lparr>type = INTEGER_LITERAL, value_tok = ''3''\<rparr>))))))"
  by code_simp

text \<open>
  C3. Each of the source strings \<open>int = 5;\<close> (no identifier), \<open>int x 5;\<close> (no equals sign),
  \<open>int x = ;\<close> (no operand) and \<open>int x = 5\<close> (no semicolon) makes \<open>parse\<close> return the
  null pointer: no tree, and no read outside the token sequence either.
\<close>

theorem failure_cases:
  "front_end ''int = 5;'' = Inr None \<and>
   front_end ''int x 5;'' = Inr None \<and>
   front_end ''int x = ;'' = Inr None \<and>
   front_end ''int x = 5'' = Inr None"
  by code_simp

section \<open>The cursor of the parser\<close>

text \<open>
  C4, as stated: \<open>advance\<close> leaves the cursor unchanged when it is at the final index of
  the token sequence. The guard of \<open>advance\<close> compares the cursor with the length, not with
  the final index: over the one-token sequence \<open>[int]\<close> the cursor 0 is the final index,
  and \<open>advance\<close> (the first one \<open>parseVariableDeclaration\<close> makes) moves it to 1.
\<close>

theorem advance_at_final_index_counterexample:
  "current_token_idx \<lparr>tokens = [\<lparr>type = KEYWORD_INT, value_tok = ''int''\<rparr>], current_token_idx = 0\<rparr>
     = length (tokens \<lparr>tokens = [\<lparr>type = KEYWORD_INT, value_tok = ''int''\<rparr>],
                       current_token_idx = 0\<rparr>) - 1
   \<and> current_token_idx
        (advance \<lparr>tokens = [\<lparr>type = KEYWORD_INT, value_tok = ''int''\<rparr>], current_token_idx = 0\<rparr>)
     \<noteq> current_token_idx
        \<lparr>tokens = [\<lparr>type = KEYWORD_INT, value_tok = ''int''\<rparr>], current_token_idx = 0\<rparr>"
  by (simp add: advance_def)

text \<open>
  C4, amended: \<open>advance\<close> never changes the token sequence; it moves the cursor forward by
  exactly one position whenever the cursor is below the length of the sequence (the final
  index included), and leaves it unchanged when the cursor is at or beyond the length.
\<close>

theorem advance_cursor:
  "tokens (advance p) = tokens p \<and>
   (current_token_idx p < length (tokens p) \<longrightarrow>
      current_token_idx (advance p) = current_token_idx p + 1) \<and>
   (length (tokens p) \<le> current_token_idx p \<longrightarrow>
      current_token_idx (advance p) = current_token_idx p)"
  by (simp add: advance_def)

theorem advance_cursor_witness:
  "(0::nat) < length [\<lparr>type = KEYWORD_INT, value_tok = ''int''\<rparr>] \<and>
   current_token_idx
     (advance \<lparr>tokens = [\<lparr>type = KEYWORD_INT, value_tok = ''int''\<rparr>], current_token_idx = 0\<rparr>) = 1 \<and>
   length [\<lparr>type = KEYWORD_INT, value_tok = ''int''\<rparr>] \<le> (1::nat) \<and>
   current_token_idx
     (advance \<lparr>tokens = [\<lparr>type = KEYWORD_INT, value_tok = ''int''\<rparr>], current_token_idx = 1\<rparr>) = 1"
  using advance_cursor [of "\<lparr>tokens = [\<lparr>type = KEYWORD_INT, value_tok = ''int''\<rparr>], current_token_idx = 0\<rparr>"]
        advance_cursor [of "\<lparr>tokens = [\<lparr>type = KEYWORD_INT, value_tok = ''int''\<rparr>], current_token_idx = 1\<rparr>"]
  by simp

section \<open>The tokenizer\<close>

lemma tokenize_loop_step:
  "tokenize_loop lexer acc =
     (if type (fst (getNextToken lexer)) \<noteq> END_OF_FILE
      then tokenize_loop (snd (getNextToken lexer)) (acc @ [fst (getNextToken lexer)])
      else acc @ [fst (getNextToken lexer)])"
  by (subst tokenize_loop.simps) (simp add: case_prod_beta Let_def)

lemma tokenize_loop_induct [consumes 0, case_names step]:
  assumes "\<And>lexer acc.
     (type (fst (getNextToken lexer)) \<noteq> END_OF_FILE \<Longrightarrow>
        P (snd (getNextToken lexer)) (acc @ [fst (getNextToken lexer)])) \<Longrightarrow> P lexer acc"
  shows "P lexer acc"
proof (induction lexer acc rule: tokenize_loop.induct)
  case (1 lexer tokens)
  show ?case
  proof (rule assms)
    assume "type (fst (getNextToken lexer)) \<noteq> END_OF_FILE"
    then show "P (snd (getNextToken lexer)) (tokens @ [fst (getNextToken lexer)])"
      by (rule "1.IH" [OF prod.collapse refl])
  qed
qed

lemma tokenize_loop_lexemes:
  "concat (map value_tok (tokenize_loop lexer acc)) =
     concat (map value_tok acc)
       @ filter (\<lambda>c. \<not> isspace c) (drop (current_pos lexer) (source_code lexer))"
proof (induction lexer acc rule: tokenize_loop_induct)
  case (step lexer acc)
  show ?case
  proof (cases "type (fst (getNextToken lexer)) = END_OF_FILE")
    case True
    then have "value_tok (fst (getNextToken lexer)) = ''''"
      by (simp add: getNextToken_eof(1))
    moreover have "drop (current_pos (snd (getNextToken lexer))) (source_code lexer) = []"
      using True scan_token_eof [of "drop (current_pos lexer) (source_code lexer)"]
      by (simp add: getNextToken_scan(1,3))
    ultimately have "filter (\<lambda>c. \<not> isspace c) (drop (current_pos lexer) (source_code lexer)) = []"
      using getNextToken_lexeme [of lexer] by simp
    then show ?thesis
      using True \<open>value_tok (fst (getNextToken lexer)) = ''''\<close>
      by (subst tokenize_loop_step) simp
  next
    case False
    then show ?thesis
      using step getNextToken_lexeme [of lexer]
      by (subst tokenize_loop_step) simp
  qed
qed

lemma lexer_after_Suc: "lexer_after (Suc n) lexer = snd (getNextToken (lexer_after n lexer))"
  by (induction n arbitrary: lexer) simp_all

lemma nth_token_0: "nth_token lexer 0 = fst (getNextToken lexer)"
  by (simp add: nth_token_def)

lemma nth_token_Suc: "nth_token lexer (Suc n) = nth_token (snd (getNextToken lexer)) n"
  by (simp add: nth_token_def)

lemma nth_token_eof_stays:
  assumes "type (nth_token lexer n) = END_OF_FILE" and "n \<le> m"
  shows "nth_token lexer m = \<lparr>type = END_OF_FILE, value_tok = ''''\<rparr>"
proof -
  have "type (nth_token lexer (n + d)) = END_OF_FILE" for d
  proof (induction d)
    case 0
    show ?case using assms(1) by simp
  next
    case (Suc d)
    then show ?case
      unfolding nth_token_def add_Suc_right lexer_after_Suc
      by (rule getNextToken_eof(2))
  qed
  from this [of "m - n"] have "type (nth_token lexer m) = END_OF_FILE"
    using assms(2) by simp
  then show ?thesis
    unfolding nth_token_def by (rule getNextToken_eof(1))
qed

lemma tokenize_loop_calls:
  "\<exists>n. tokenize_loop lexer acc = acc @ map (nth_token lexer) [0..<Suc n]
       \<and> (\<forall>k<n. type (nth_token lexer k) \<noteq> END_OF_FILE)
       \<and> type (nth_token lexer n) = END_OF_FILE"
proof (induction lexer acc rule: tokenize_loop_induct)
  case (step lexer acc)
  show ?case
  proof (cases "type (fst (getNextToken lexer)) = END_OF_FILE")
    case True
    then have "tokenize_loop lexer acc = acc @ map (nth_token lexer) [0..<Suc 0]"
      by (subst tokenize_loop_step) (simp add: nth_token_0)
    with True show ?thesis
      by (intro exI [of _ 0]) (simp add: nth_token_0)
  next
    case False
    let ?lx = "snd (getNextToken lexer)"
    from step [OF False] obtain n where
      n: "tokenize_loop ?lx (acc @ [fst (getNextToken lexer)])
            = (acc @ [fst (getNextToken lexer)]) @ map (nth_token ?lx) [0..<Suc n]"
         "\<forall>k<n. type (nth_token ?lx k) \<noteq> END_OF_FILE"
         "type (nth_token ?lx n) = END_OF_FILE"
      by blast
    have m: "map (nth_token lexer) [0..<Suc (Suc n)]
         = fst (getNextToken lexer) # map (nth_token ?lx) [0..<Suc n]"
      by (subst upt_conv_Cons, simp)
         (simp only: list.map nth_token_0 map_Suc_upt [symmetric] map_map o_def nth_token_Suc)
    have "tokenize_loop lexer acc = acc @ map (nth_token lexer) [0..<Suc (Suc n)]"
      using False n(1) by (subst tokenize_loop_step) (simp only: m, simp)
    moreover have "\<forall>k<Suc n. type (nth_token lexer k) \<noteq> END_OF_FILE"
    proof (intro allI impI)
      fix k assume "k < Suc n"
      then show "type (nth_token lexer k) \<noteq> END_OF_FILE"
        using False n(2) by (cases k) (simp_all add: nth_token_0 nth_token_Suc)
    qed
    moreover have "type (nth_token lexer (Suc n)) = END_OF_FILE"
      using n(3) by (simp add: nth_token_Suc)
    ultimately show ?thesis by blast
  qed
qed

lemma isalpha_dispatch:
  assumes "isalpha c"
  shows "c \<noteq> CHR ''+''" "c \<noteq> CHR ''-''" "c \<noteq> CHR ''*''" "c \<noteq> CHR ''/''"
        "c \<noteq> CHR ''=''" "c \<noteq> CHR '';''" "\<not> isdigit c"
  using assms by (auto simp: isalpha_def isdigit_def less_eq_char_def)

lemma takeWhile_maximal_run:
  assumes "\<forall>c\<in>set run. P c" and "rest = [] \<or> \<not> P (hd rest)"
  shows "takeWhile P (run @ rest) = run"
  using assms by (cases rest) (simp_all add: takeWhile_append2)

text \<open>
  C5. Round trip. For a source string without whitespace characters, the lexemes of the
  tokens returned by the repeated calls of \<open>getNextToken\<close>, up to and including the first
  end-of-file token, concatenated in order, are the source string.
\<close>

theorem round_trip:
  assumes "\<forall>c\<in>set src. \<not> isspace c"
  shows "concat (map value_tok (tokenize src)) = src"
proof -
  have "filter (\<lambda>c. \<not> isspace c) src = src"
    using assms by (simp add: filter_id_conv)
  then show ?thesis
    using tokenize_loop_lexemes [of "new_Lexer src" "[]"]
    by (simp add: tokenize_def new_Lexer_def)
qed

theorem round_trip_witness:
  "concat (map value_tok (tokenize ''int2=x+@;'')) = ''int2=x+@;''"
proof -
  have h: "\<forall>c\<in>set ''int2=x+@;''. \<not> isspace c"
    by (simp add: isspace_def less_eq_char_def)
  show ?thesis by (rule round_trip [OF h])
qed

text \<open>
  C6. Keyword exactness. Let the text at the cursor be some whitespace \<open>ws\<close> (possibly
  none) followed by a maximal alphanumeric run \<open>run\<close> that starts with a letter (the text
  \<open>rest\<close> after it is empty or starts with a character that is not alphanumeric). Then
  the token returned has the run as its lexeme; its kind is \<open>KEYWORD_INT\<close> when the run is
  exactly \<open>int\<close>, and \<open>IDENTIFIER\<close> for every other run (\<open>int2\<close>, \<open>Int\<close>, \<open>integer\<close>).
\<close>

theorem keyword_exactness:
  assumes "run \<noteq> []" and "isalpha (hd run)" and "\<forall>c\<in>set run. isalnum c"
    and "rest = [] \<or> \<not> isalnum (hd rest)"
    and "\<forall>c\<in>set ws. isspace c"
  shows "fst (getNextToken \<lparr>source_code = pre @ ws @ run @ rest, current_pos = length pre\<rparr>) =
           \<lparr>type = (if run = ''int'' then KEYWORD_INT else IDENTIFIER), value_tok = run\<rparr>"
proof -
  obtain c r where cr: "run @ rest = c # r" and c: "isalpha c"
    using assms(1,2) by (cases run) auto
  then have "\<not> isspace c" by (simp add: isalpha_not_isspace)
  then have ws: "dropWhile isspace (ws @ run @ rest) = c # r"
    using assms(5) by (simp add: cr dropWhile_append2)
  have tw: "takeWhile isalnum (c # r) = run"
    using takeWhile_maximal_run [OF assms(3,4)] by (simp only: cr)
  have "fst (getNextToken \<lparr>source_code = pre @ ws @ run @ rest, current_pos = length pre\<rparr>) =
        fst (scan_token (ws @ run @ rest))"
    by (simp add: getNextToken_scan(1))
  also have "\<dots> = \<lparr>type = (if run = ''int'' then KEYWORD_INT else IDENTIFIER), value_tok = run\<rparr>"
    unfolding scan_token_ws_Cons [OF ws] tw
    using isalpha_dispatch [OF c] c by simp
  finally show ?thesis .
qed

theorem keyword_exactness_witness:
  "fst (getNextToken \<lparr>source_code = ''int x'', current_pos = 0\<rparr>)
     = \<lparr>type = KEYWORD_INT, value_tok = ''int''\<rparr> \<and>
   fst (getNextToken \<lparr>source_code = ''  int2=1'', current_pos = 0\<rparr>)
     = \<lparr>type = IDENTIFIER, value_tok = ''int2''\<rparr> \<and>
   fst (getNextToken \<lparr>source_code = ''1+ Int'', current_pos = length ''1+''\<rparr>)
     = \<lparr>type = IDENTIFIER, value_tok = ''Int''\<rparr> \<and>
   fst (getNextToken \<lparr>source_code = ''integer;'', current_pos = 0\<rparr>)
     = \<lparr>type = IDENTIFIER, value_tok = ''integer''\<rparr>"
  using keyword_exactness [of "''int''" "'' x''" "''''" "''''"]
        keyword_exactness [of "''int2''" "''=1''" "''  ''" "''''"]
        keyword_exactness [of "''Int''" "''''" "'' ''" "''1+''"]
        keyword_exactness [of "''integer''" "'';''" "''''" "''''"]
  by (simp add: isalpha_def isalnum_def isdigit_def isspace_def less_eq_char_def)

text \<open>
  C7. Tokenizer totality. For every source string (empty and all-whitespace strings
  included), with \<open>n = length (tokenize src) - 1\<close>: the tokens collected by the do-while loop
  are the results of the calls number \<open>0\<close> to \<open>n\<close> of \<open>getNextToken\<close>; none of the calls
  before the \<open>n\<close>-th returns the end-of-file token; the \<open>n\<close>-th call and every later one
  return the end-of-file token with the empty lexeme; and the lexemes of the collected
  tokens, concatenated, are the source string with its whitespace characters removed, so
  every other character is in exactly one lexeme.
\<close>

theorem tokenizer_totality:
  "tokenize src = map (nth_token (new_Lexer src)) [0..<Suc (length (tokenize src) - 1)]
   \<and> (\<forall>k < length (tokenize src) - 1. type (nth_token (new_Lexer src) k) \<noteq> END_OF_FILE)
   \<and> (\<forall>m \<ge> length (tokenize src) - 1.
         nth_token (new_Lexer src) m = \<lparr>type = END_OF_FILE, value_tok = ''''\<rparr>)
   \<and> concat (map value_tok (tokenize src)) = filter (\<lambda>c. \<not> isspace c) src"
proof -
  obtain n where
    n: "tokenize src = map (nth_token (new_Lexer src)) [0..<Suc n]"
       "\<forall>k<n. type (nth_token (new_Lexer src) k) \<noteq> END_OF_FILE"
       "type (nth_token (new_Lexer src) n) = END_OF_FILE"
    using tokenize_loop_calls [of "new_Lexer src" "[]"] by (auto simp: tokenize_def)
  have "length (tokenize src) = Suc n"
    by (subst n(1)) simp
  then have l: "length (tokenize src) - 1 = n" by simp
  have "concat (map value_tok (tokenize src)) = filter (\<lambda>c. \<not> isspace c) src"
    using tokenize_loop_lexemes [of "new_Lexer src" "[]"]
    by (simp add: tokenize_def new_Lexer_def)
  then show ?thesis
    unfolding l using n nth_token_eof_stays [OF n(3)] by blast
qed

theorem tokenizer_totality_witness:
  "(0::nat) < length (tokenize '' a1 +'') - 1 \<and>
   type (nth_token (new_Lexer '' a1 +'') 0) \<noteq> END_OF_FILE \<and>
   length (tokenize '' a1 +'') - 1 \<le> (7::nat) \<and>
   nth_token (new_Lexer '' a1 +'') 7 = \<lparr>type = END_OF_FILE, value_tok = ''''\<rparr> \<and>
   concat (map value_tok (tokenize '' a1 +'')) = ''a1+''"
proof -
  have l: "length (tokenize '' a1 +'') - 1 = 2" by code_simp
  have f: "filter (\<lambda>c. \<not> isspace c) '' a1 +'' = ''a1+''"
    by (simp add: isspace_def less_eq_char_def)
  have t: "(\<forall>k<2. type (nth_token (new_Lexer '' a1 +'') k) \<noteq> END_OF_FILE)
         \<and> (\<forall>m\<ge>2. nth_token (new_Lexer '' a1 +'') m = \<lparr>type = END_OF_FILE, value_tok = []\<rparr>)
         \<and> concat (map value_tok (tokenize '' a1 +'')) = ''a1+''"
    using tokenizer_totality [of "'' a1 +''"] unfolding l f by blast
  then show ?thesis
    unfolding l by simp
qed

section \<open>The kinds of the tokens in a tree\<close>

lemma parseExpression_loop_induct [consumes 0, case_names loop]:
  assumes "\<And>left p.
     (\<And>op r p1. peek p = Inr op \<Longrightarrow> type op = OPERATOR_PLUS \<or> type op = OPERATOR_MINUS \<Longrightarrow>
        parseTerm (advance p) = Inr (Some r, p1) \<Longrightarrow>
        P (Some (BinaryOpNode left op (Some r))) p1) \<Longrightarrow> P left p"
  shows "P left p"
proof (induction left p rule: parseExpression_loop.induct)
  case (1 left p)
  show ?case
  proof (rule assms)
    fix op r p1
    assume "peek p = Inr op" "type op = OPERATOR_PLUS \<or> type op = OPERATOR_MINUS"
      "parseTerm (advance p) = Inr (Some r, p1)"
    then show "P (Some (BinaryOpNode left op (Some r))) p1"
      using "1.IH" [of op "(Some r, p1)" "Some r" p1] by simp
  qed
qed

lemma parseExpression_loop_unfold:
  "parseExpression_loop left p =
     (case peek p of
        Inl e \<Rightarrow> Inl e
      | Inr op \<Rightarrow>
          if type op = OPERATOR_PLUS \<or> type op = OPERATOR_MINUS
          then (case parseTerm (advance p) of
                  Inl e \<Rightarrow> Inl e
                | Inr (None, p1) \<Rightarrow> Inr (None, p1)
                | Inr (Some r, p1) \<Rightarrow>
                    parseExpression_loop (Some (BinaryOpNode left op (Some r))) p1)
          else Inr (left, p))"
  by (subst parseExpression_loop.simps) (simp split: sum.splits option.splits prod.splits)

lemma parseTerm_kinded:
  "parseTerm p = Inr (Some n, p') \<Longrightarrow> well_kinded n"
  by (auto simp: parseTerm_def split: sum.splits if_splits)

lemma parseExpression_loop_kinded:
  "parseExpression_loop left p = Inr (Some n, p') \<Longrightarrow>
   (\<And>l. left = Some l \<Longrightarrow> well_kinded l) \<Longrightarrow> well_kinded n"
proof (induction left p rule: parseExpression_loop_induct)
  case (loop left p)
  have "parseExpression_loop left p = Inr (Some n, p')"
    by (rule loop.prems(1))
  then consider
    (stop) "left = Some n"
  | (step) op r p1 where "peek p = Inr op" "type op = OPERATOR_PLUS \<or> type op = OPERATOR_MINUS"
      "parseTerm (advance p) = Inr (Some r, p1)"
      "parseExpression_loop (Some (BinaryOpNode left op (Some r))) p1 = Inr (Some n, p')"
    by (subst (asm) parseExpression_loop_unfold)
       (auto split: sum.splits if_splits option.splits)
  then show ?case
  proof cases
    case stop
    then show ?thesis by (rule loop.prems(2))
  next
    case step
    have "well_kinded (BinaryOpNode left op (Some r))"
      using step(2) parseTerm_kinded [OF step(3)] loop.prems(2) by (cases left) auto
    then show ?thesis
      using loop.IH [OF step] by simp
  qed
qed

lemma parseExpression_kinded:
  "parseExpression p = Inr (Some n, p') \<Longrightarrow> well_kinded n"
  unfolding parseExpression_def
  by (auto split: sum.splits dest: parseTerm_kinded elim!: parseExpression_loop_kinded)

lemma parseVariableDeclaration_kinded:
  assumes "parseVariableDeclaration p = Inr (Some n, p')"
    and "peek p = Inr ty" and "type ty = KEYWORD_INT"
  shows "well_kinded n"
proof -
  from assms(1,2) obtain ident e p3 where
    "type ident = IDENTIFIER" and
    e: "parseExpression (advance (advance (advance p))) = Inr (Some e, p3)" and
    "n = VarDeclNode ty ident (Some e)"
    unfolding parseVariableDeclaration_def Let_def
    by (auto split: sum.splits if_splits option.splits)
  then show ?thesis
    using assms(3) parseExpression_kinded [OF e] by simp
qed

text \<open>
  C8. For every token sequence: if \<open>parse\<close> returns a tree, then in every node of it a
  binary operation has an operator token of kind \<open>OPERATOR_PLUS\<close> or \<open>OPERATOR_MINUS\<close>, a
  variable declaration has a type token of kind \<open>KEYWORD_INT\<close> and an identifier token of
  kind \<open>IDENTIFIER\<close>, and a number literal has a token of kind \<open>INTEGER_LITERAL\<close>
  (\<open>well_kinded\<close> checks the node and, recursively, each child that is there).
\<close>

theorem tree_invariant:
  assumes "parse_tokens ts = Inr (Some tree)"
  shows "well_kinded tree"
proof -
  obtain p' where "parseStatement (new_Parser ts) = Inr (Some tree, p')"
    using assms by (auto simp: parse_tokens_def parse_def split: sum.splits)
  then show ?thesis
    unfolding parseStatement_def
    by (auto split: sum.splits if_splits intro: parseVariableDeclaration_kinded)
qed

theorem tree_invariant_witness:
  "parse_tokens
     [\<lparr>type = KEYWORD_INT, value_tok = ''int''\<rparr>, \<lparr>type = IDENTIFIER, value_tok = ''x''\<rparr>,
      \<lparr>type = OPERATOR_ASSIGN, value_tok = ''=''\<rparr>, \<lparr>type = INTEGER_LITERAL, value_tok = ''1''\<rparr>,
      \<lparr>type = OPERATOR_MINUS, value_tok = ''-''\<rparr>, \<lparr>type = INTEGER_LITERAL, value_tok = ''2''\<rparr>,
      \<lparr>type = PUNCTUATION_SEMICOLON, value_tok = '';''\<rparr>, \<lparr>type = END_OF_FILE, value_tok = ''''\<rparr>]
   = Inr (Some (VarDeclNode
       \<lparr>type = KEYWORD_INT, value_tok = ''int''\<rparr> \<lparr>type = IDENTIFIER, value_tok = ''x''\<rparr>
       (Some (BinaryOpNode
          (Some (NumberNode \<lparr>type = INTEGER_LITERAL, value_tok = ''1''\<rparr>))
          \<lparr>type = OPERATOR_MINUS, value_tok = ''-''\<rparr>
          (Some (NumberNode \<lparr>type = INTEGER_LITERAL, value_tok = ''2''\<rparr>))))))
   \<and> well_kinded (VarDeclNode
       \<lparr>type = KEYWORD_INT, value_tok = ''int''\<rparr> \<lparr>type = IDENTIFIER, value_tok = ''x''\<rparr>
       (Some (BinaryOpNode
          (Some (NumberNode \<lparr>type = INTEGER_LITERAL, value_tok = ''1''\<rparr>))
          \<lparr>type = OPERATOR_MINUS, value_tok = ''-''\<rparr>
          (Some (NumberNode \<lparr>type = INTEGER_LITERAL, value_tok = ''2''\<rparr>)))))"
  (is "?h \<and> ?c")
proof -
  have h: ?h by code_simp
  show ?thesis by (rule conjI [OF h tree_invariant [OF h]])
qed

section \<open>Reads of the token sequence\<close>

text \<open>
  The invariant of a run of \<open>parse\<close> over a sequence that ends in an end-of-file token:
  the cursor is a valid index.
\<close>

definition in_bounds :: "Parser \<Rightarrow> bool" where
  "in_bounds p \<longleftrightarrow>
     current_token_idx p < length (tokens p) \<and> type (last (tokens p)) = END_OF_FILE"

lemma peek_in_bounds: "in_bounds p \<Longrightarrow> peek p = Inr (tokens p ! current_token_idx p)"
  by (simp add: in_bounds_def peek_def)

lemma advance_in_bounds:
  assumes "in_bounds p" and "peek p = Inr t" and "type t \<noteq> END_OF_FILE"
  shows "in_bounds (advance p)"
proof -
  have lt: "current_token_idx p < length (tokens p)"
    and eof: "type (last (tokens p)) = END_OF_FILE"
    using assms(1) by (simp_all add: in_bounds_def)
  have t: "t = tokens p ! current_token_idx p"
    using assms(2) lt by (simp add: peek_def)
  have "current_token_idx p \<noteq> length (tokens p) - 1"
  proof
    assume "current_token_idx p = length (tokens p) - 1"
    moreover have "tokens p \<noteq> []"
      using lt by auto
    ultimately have "t = last (tokens p)"
      using t by (simp add: last_conv_nth)
    with eof assms(3) show False by simp
  qed
  then have "Suc (current_token_idx p) < length (tokens p)"
    using lt by arith
  then show ?thesis
    using lt eof by (simp add: in_bounds_def advance_def)
qed

lemma parseTerm_in_bounds:
  assumes "in_bounds p"
  shows "\<exists>r p'. parseTerm p = Inr (r, p') \<and> in_bounds p'"
proof -
  obtain t where t: "peek p = Inr t"
    using peek_in_bounds [OF assms] by blast
  show ?thesis
  proof (cases "type t = INTEGER_LITERAL")
    case True
    then have "in_bounds (advance p)"
      using advance_in_bounds [OF assms t] by simp
    then show ?thesis
      using t True by (simp add: parseTerm_def)
  next
    case False
    then show ?thesis
      using t assms by (simp add: parseTerm_def)
  qed
qed

lemma parseExpression_loop_in_bounds:
  "in_bounds p \<Longrightarrow> \<exists>r p'. parseExpression_loop left p = Inr (r, p') \<and> in_bounds p'"
proof (induction left p rule: parseExpression_loop_induct)
  case (loop left p)
  obtain op where op: "peek p = Inr op"
    using peek_in_bounds [OF loop.prems] by blast
  show ?case
  proof (cases "type op = OPERATOR_PLUS \<or> type op = OPERATOR_MINUS")
    case False
    then show ?thesis
      using op loop.prems by (subst parseExpression_loop_unfold) simp
  next
    case True
    then have "in_bounds (advance p)"
      using advance_in_bounds [OF loop.prems op] by auto
    then obtain r p1 where r: "parseTerm (advance p) = Inr (r, p1)" and p1: "in_bounds p1"
      using parseTerm_in_bounds by blast
    show ?thesis
    proof (cases r)
      case None
      then show ?thesis
        using op True r p1 by (subst parseExpression_loop_unfold) simp
    next
      case (Some n)
      then show ?thesis
        using op True r loop.IH [OF op True r [unfolded Some] p1]
        by (subst parseExpression_loop_unfold) simp
    qed
  qed
qed

lemma parseExpression_in_bounds:
  assumes "in_bounds p"
  shows "\<exists>r p'. parseExpression p = Inr (r, p') \<and> in_bounds p'"
proof -
  obtain l p1 where "parseTerm p = Inr (l, p1)" "in_bounds p1"
    using parseTerm_in_bounds [OF assms] by blast
  then show ?thesis
    using parseExpression_loop_in_bounds [of p1 l] by (simp add: parseExpression_def)
qed

lemma parseVariableDeclaration_in_bounds:
  assumes "in_bounds p" and "peek p = Inr ty" and "type ty = KEYWORD_INT"
  shows "\<exists>r p'. parseVariableDeclaration p = Inr (r, p')"
proof -
  have b1: "in_bounds (advance p)"
    using advance_in_bounds [OF assms(1,2)] assms(3) by simp
  then obtain ident where ident: "peek (advance p) = Inr ident"
    using peek_in_bounds by blast
  show ?thesis
  proof (cases "type ident = IDENTIFIER")
    case False
    then show ?thesis
      using assms(2) ident by (simp add: parseVariableDeclaration_def)
  next
    case True
    then have b2: "in_bounds (advance (advance p))"
      using advance_in_bounds [OF b1 ident] by simp
    then obtain eq where eq: "peek (advance (advance p)) = Inr eq"
      using peek_in_bounds by blast
    show ?thesis
    proof (cases "type eq = OPERATOR_ASSIGN")
      case False
      then show ?thesis
        using assms(2) ident True eq by (simp add: parseVariableDeclaration_def)
    next
      case assign: True
      then have "in_bounds (advance (advance (advance p)))"
        using advance_in_bounds [OF b2 eq] by simp
      then obtain e p3 where
        e: "parseExpression (advance (advance (advance p))) = Inr (e, p3)" and b3: "in_bounds p3"
        using parseExpression_in_bounds by blast
      obtain semi where semi: "peek p3 = Inr semi"
        using peek_in_bounds [OF b3] by blast
      show ?thesis
        using assms(2) ident True eq assign e semi
        by (simp add: parseVariableDeclaration_def)
    qed
  qed
qed

text \<open>
  C9. Every \<open>peek\<close> of the model that reads at or beyond the length of the sequence gives
  \<open>Inl IndexOutOfBounds\<close>, and every parsing function hands that on unchanged; so a run of
  \<open>parse\<close> makes only in-bounds reads exactly when its result is an \<open>Inr\<close>. For every
  non-empty token sequence whose last element is an end-of-file token that is the case.
  (Nothing is asked of the other elements: the sequence may hold further end-of-file
  tokens.)
\<close>

theorem peek_always_in_bounds:
  assumes "ts \<noteq> []" and "type (last ts) = END_OF_FILE"
  shows "\<exists>root. parse_tokens ts = Inr root"
proof -
  have b: "in_bounds (new_Parser ts)"
    using assms by (simp add: in_bounds_def new_Parser_def)
  then obtain t where t: "peek (new_Parser ts) = Inr t"
    using peek_in_bounds by blast
  have "\<exists>r p'. parseStatement (new_Parser ts) = Inr (r, p')"
  proof (cases "type t = KEYWORD_INT")
    case True
    then show ?thesis
      using parseVariableDeclaration_in_bounds [OF b t] t by (simp add: parseStatement_def)
  next
    case False
    then show ?thesis
      using t by (simp add: parseStatement_def)
  qed
  then show ?thesis
    by (auto simp: parse_tokens_def parse_def)
qed

theorem peek_always_in_bounds_witness:
  "[\<lparr>type = KEYWORD_INT, value_tok = ''int''\<rparr>, \<lparr>type = IDENTIFIER, value_tok = ''x''\<rparr>,
    \<lparr>type = END_OF_FILE, value_tok = ''''\<rparr>] \<noteq> []
   \<and> type (last [\<lparr>type = KEYWORD_INT, value_tok = ''int''\<rparr>, \<lparr>type = IDENTIFIER, value_tok = ''x''\<rparr>,
                  \<lparr>type = END_OF_FILE, value_tok = ''''\<rparr>]) = END_OF_FILE
   \<and> (\<exists>root. parse_tokens
         [\<lparr>type = KEYWORD_INT, value_tok = ''int''\<rparr>, \<lparr>type = IDENTIFIER, value_tok = ''x''\<rparr>,
          \<lparr>type = END_OF_FILE, value_tok = ''''\<rparr>] = Inr root)"
  (is "?a \<and> ?b \<and> ?c")
proof -
  have a: ?a and b: ?b by simp_all
  show ?thesis by (intro conjI a b peek_always_in_bounds [OF a b])
qed

section \<open>Tokens after the semicolon\<close>

text \<open>
  The grammar as the specification writes it,
  \<^verbatim>\<open>variable_declaration ::= "int" IDENTIFIER "=" expression ";"\<close>,
  \<^verbatim>\<open>expression ::= term ( ("+" | "-") term )*\<close>, \<^verbatim>\<open>term ::= INTEGER_LITERAL\<close>,
  as a recogniser on token sequences, and the tree the specification assigns to a
  declaration (the operations folded to the left). These two follow the specification,
  not the code; the theorem of this section compares the code with them.
\<close>

fun additive_tail :: "Token list \<Rightarrow> bool" where
  "additive_tail [] \<longleftrightarrow> True"
| "additive_tail [op] \<longleftrightarrow> False"
| "additive_tail (op # n # ts) \<longleftrightarrow>
     (type op = OPERATOR_PLUS \<or> type op = OPERATOR_MINUS) \<and> type n = INTEGER_LITERAL
     \<and> additive_tail ts"

fun well_formed_declaration :: "Token list \<Rightarrow> bool" where
  "well_formed_declaration (ty # ident # eq # n # ts) \<longleftrightarrow>
     type ty = KEYWORD_INT \<and> type ident = IDENTIFIER \<and> type eq = OPERATOR_ASSIGN
     \<and> type n = INTEGER_LITERAL
     \<and> ts \<noteq> [] \<and> additive_tail (butlast ts) \<and> type (last ts) = PUNCTUATION_SEMICOLON"
| "well_formed_declaration _ \<longleftrightarrow> False"

fun fold_tail :: "AstNode \<Rightarrow> Token list \<Rightarrow> AstNode" where
  "fold_tail left (op # n # ts) = fold_tail (BinaryOpNode (Some left) op (Some (NumberNode n))) ts"
| "fold_tail left _ = left"

fun declaration_tree :: "Token list \<Rightarrow> AstNode option" where
  "declaration_tree (ty # ident # eq # n # ts) =
     Some (VarDeclNode ty ident (Some (fold_tail (NumberNode n) (butlast ts))))"
| "declaration_tree _ = None"

lemma drop_eq_Cons:
  assumes "drop i ts = x # xs"
  shows "i < length ts" and "ts ! i = x" and "drop (Suc i) ts = xs"
proof -
  show lt: "i < length ts"
    using assms by (cases "i < length ts") auto
  then show "ts ! i = x" and "drop (Suc i) ts = xs"
    using assms by (simp_all flip: Cons_nth_drop_Suc)
qed

lemma peek_drop:
  "drop i ts = x # xs \<Longrightarrow> peek \<lparr>tokens = ts, current_token_idx = i\<rparr> = Inr x"
  by (simp add: peek_def drop_eq_Cons)

lemma advance_drop:
  "drop i ts = x # xs \<Longrightarrow>
   advance \<lparr>tokens = ts, current_token_idx = i\<rparr> = \<lparr>tokens = ts, current_token_idx = Suc i\<rparr>"
  by (simp add: advance_def drop_eq_Cons)

lemma parseTerm_drop:
  "drop i ts = n # xs \<Longrightarrow> type n = INTEGER_LITERAL \<Longrightarrow>
   parseTerm \<lparr>tokens = ts, current_token_idx = i\<rparr>
     = Inr (Some (NumberNode n), \<lparr>tokens = ts, current_token_idx = Suc i\<rparr>)"
  by (simp add: parseTerm_def peek_drop advance_drop)

lemma parseExpression_loop_complete:
  assumes "additive_tail ops" and "drop i ts = ops @ semi # rest"
    and "type semi = PUNCTUATION_SEMICOLON"
  shows "parseExpression_loop (Some left) \<lparr>tokens = ts, current_token_idx = i\<rparr>
           = Inr (Some (fold_tail left ops), \<lparr>tokens = ts, current_token_idx = i + length ops\<rparr>)"
  using assms
proof (induction ops arbitrary: left i rule: additive_tail.induct)
  case 1
  then have "peek \<lparr>tokens = ts, current_token_idx = i\<rparr> = Inr semi"
    by (simp add: peek_drop)
  then show ?case
    using 1(3) by (subst parseExpression_loop_unfold) simp
next
  case (2 op)
  then show ?case by simp
next
  case (3 op n ops)
  from 3(3) have d0: "drop i ts = op # (n # ops @ semi # rest)" by simp
  then have d1: "drop (Suc i) ts = n # (ops @ semi # rest)"
    by (rule drop_eq_Cons(3))
  then have d2: "drop (Suc (Suc i)) ts = ops @ semi # rest"
    by (rule drop_eq_Cons(3))
  have k: "type op = OPERATOR_PLUS \<or> type op = OPERATOR_MINUS" "type n = INTEGER_LITERAL"
    and ops: "additive_tail ops"
    using 3(2) by simp_all
  have "parseExpression_loop (Some left) \<lparr>tokens = ts, current_token_idx = i\<rparr>
      = parseExpression_loop (Some (BinaryOpNode (Some left) op (Some (NumberNode n))))
          \<lparr>tokens = ts, current_token_idx = Suc (Suc i)\<rparr>"
    using k by (subst parseExpression_loop_unfold)
      (simp add: peek_drop [OF d0] advance_drop [OF d0] parseTerm_drop [OF d1])
  also have "\<dots> = Inr (Some (fold_tail (BinaryOpNode (Some left) op (Some (NumberNode n))) ops),
       \<lparr>tokens = ts, current_token_idx = Suc (Suc i) + length ops\<rparr>)"
    using "3.IH" [OF ops d2 3(4)] .
  finally show ?case by simp
qed

text \<open>
  C10. Let \<open>pre\<close> be a well-formed declaration that ends in its semicolon. Then for every
  token sequence \<open>rest\<close>, \<open>parse\<close> on \<open>pre @ rest\<close> returns the tree of \<open>pre\<close>: the result
  does not depend on the tokens after the semicolon, and tokens between the semicolon and
  the end-of-file token are accepted without a diagnostic.
\<close>

theorem trailing_tokens_ignored:
  assumes "well_formed_declaration pre"
  shows "parse_tokens (pre @ rest) = Inr (declaration_tree pre)
       \<and> declaration_tree pre \<noteq> None"
proof -
  obtain ty ident eq n ts where pre: "pre = ty # ident # eq # n # ts"
    using assms by (cases pre rule: well_formed_declaration.cases) simp_all
  have k: "type ty = KEYWORD_INT" "type ident = IDENTIFIER" "type eq = OPERATOR_ASSIGN"
      "type n = INTEGER_LITERAL" "ts \<noteq> []" "additive_tail (butlast ts)"
      "type (last ts) = PUNCTUATION_SEMICOLON"
    using assms unfolding pre by simp_all
  define all where "all = pre @ rest"
  define ops where "ops = butlast ts"
  define semi where "semi = last ts"
  have ts: "ts = ops @ [semi]"
    using k(5) by (simp add: ops_def semi_def)
  have d0: "drop 0 all = ty # (ident # eq # n # ops @ semi # rest)"
    by (simp add: all_def pre ts)
  then have d1: "drop (Suc 0) all = ident # (eq # n # ops @ semi # rest)"
    by (rule drop_eq_Cons(3))
  then have d2: "drop (Suc (Suc 0)) all = eq # (n # ops @ semi # rest)"
    by (rule drop_eq_Cons(3))
  then have d3: "drop (Suc (Suc (Suc 0))) all = n # (ops @ semi # rest)"
    by (rule drop_eq_Cons(3))
  then have d4: "drop (Suc (Suc (Suc (Suc 0)))) all = ops @ semi # rest"
    by (rule drop_eq_Cons(3))
  have "drop (length ops) (drop (Suc (Suc (Suc (Suc 0)))) all) = semi # rest"
    unfolding d4 by simp
  then have d5: "drop (Suc (Suc (Suc (Suc (length ops))))) all = semi # rest"
    by simp
  have e: "parseExpression \<lparr>tokens = all, current_token_idx = Suc (Suc (Suc 0))\<rparr>
      = Inr (Some (fold_tail (NumberNode n) ops),
             \<lparr>tokens = all, current_token_idx = Suc (Suc (Suc (Suc (length ops))))\<rparr>)"
    using parseExpression_loop_complete [OF k(6) [folded ops_def] d4 k(7) [folded semi_def]]
    by (simp add: parseExpression_def parseTerm_drop [OF d3 k(4)])
  have "parseVariableDeclaration \<lparr>tokens = all, current_token_idx = 0\<rparr>
      = Inr (Some (VarDeclNode ty ident (Some (fold_tail (NumberNode n) ops))),
             \<lparr>tokens = all, current_token_idx = Suc (Suc (Suc (Suc (Suc (length ops)))))\<rparr>)"
    using k(1-3) k(7) [folded semi_def]
    by (simp add: parseVariableDeclaration_def peek_drop [OF d0] advance_drop [OF d0]
          peek_drop [OF d1] advance_drop [OF d1] peek_drop [OF d2] advance_drop [OF d2] e
          peek_drop [OF d5] advance_drop [OF d5])
  then have "parse_tokens all = Inr (Some (VarDeclNode ty ident (Some (fold_tail (NumberNode n) ops))))"
    using k(1) by (simp add: parse_tokens_def parse_def parseStatement_def new_Parser_def
        peek_drop [OF d0])
  then show ?thesis
    unfolding all_def ops_def pre by simp
qed

theorem trailing_tokens_ignored_witness:
  "well_formed_declaration
     [\<lparr>type = KEYWORD_INT, value_tok = ''int''\<rparr>, \<lparr>type = IDENTIFIER, value_tok = ''x''\<rparr>,
      \<lparr>type = OPERATOR_ASSIGN, value_tok = ''=''\<rparr>, \<lparr>type = INTEGER_LITERAL, value_tok = ''1''\<rparr>,
      \<lparr>type = OPERATOR_PLUS, value_tok = ''+''\<rparr>, \<lparr>type = INTEGER_LITERAL, value_tok = ''2''\<rparr>,
      \<lparr>type = PUNCTUATION_SEMICOLON, value_tok = '';''\<rparr>]
   \<and> parse_tokens
     ([\<lparr>type = KEYWORD_INT, value_tok = ''int''\<rparr>, \<lparr>type = IDENTIFIER, value_tok = ''x''\<rparr>,
       \<lparr>type = OPERATOR_ASSIGN, value_tok = ''=''\<rparr>, \<lparr>type = INTEGER_LITERAL, value_tok = ''1''\<rparr>,
       \<lparr>type = OPERATOR_PLUS, value_tok = ''+''\<rparr>, \<lparr>type = INTEGER_LITERAL, value_tok = ''2''\<rparr>,
       \<lparr>type = PUNCTUATION_SEMICOLON, value_tok = '';''\<rparr>]
      @ [\<lparr>type = UNKNOWN, value_tok = ''@''\<rparr>, \<lparr>type = OPERATOR_PLUS, value_tok = ''+''\<rparr>,
         \<lparr>type = KEYWORD_INT, value_tok = ''int''\<rparr>, \<lparr>type = END_OF_FILE, value_tok = ''''\<rparr>])
   = Inr (Some (VarDeclNode
       \<lparr>type = KEYWORD_INT, value_tok = ''int''\<rparr> \<lparr>type = IDENTIFIER, value_tok = ''x''\<rparr>
       (Some (BinaryOpNode
          (Some (NumberNode \<lparr>type = INTEGER_LITERAL, value_tok = ''1''\<rparr>))
          \<lparr>type = OPERATOR_PLUS, value_tok = ''+''\<rparr>
          (Some (NumberNode \<lparr>type = INTEGER_LITERAL, value_tok = ''2''\<rparr>))))))"
  (is "?h \<and> ?c")
proof -
  have h: ?h by simp
  show ?thesis
    using h trailing_tokens_ignored [OF h,
      of "[\<lparr>type = UNKNOWN, value_tok = ''@''\<rparr>, \<lparr>type = OPERATOR_PLUS, value_tok = ''+''\<rparr>,
           \<lparr>type = KEYWORD_INT, value_tok = ''int''\<rparr>, \<lparr>type = END_OF_FILE, value_tok = ''''\<rparr>]"]
    by simp
qed

end
